theory Spec2Isabelle
  imports Main "HOL-Library.AList" "HOL-Library.Option_ord"
begin

section \<open>The timer data model (types.ts)\<close>

text \<open>
  Durations and instants are JavaScript numbers holding whole milliseconds; they are
  modelled as \<open>int\<close>. An instant is the number of milliseconds since the epoch, as
  \<open>Date.getTime\<close> gives it.

  The fields \<open>startedAt\<close> and \<open>endsAt\<close> hold the text that \<open>formatISO\<close> of date-fns
  prints. That text has the form \<open>yyyy-MM-ddTHH:mm:ss\<close> followed by the zone offset:
  it has no fraction of a second. The model keeps of such a text the whole second it
  names: \<open>ISO n\<close> is the text for second \<open>n\<close> after the epoch. \<open>formatISO\<close> rounds
  an instant down to its second, and \<open>new Date(text)\<close> reads the text back as the first
  millisecond of that second.
\<close>

datatype iso = ISO int

definition formatISO :: "int \<Rightarrow> iso" where
  "formatISO t = ISO (t div 1000)"

fun newDate :: "iso \<Rightarrow> int" where
  "newDate (ISO n) = n * 1000"

definition addMilliseconds :: "int \<Rightarrow> int \<Rightarrow> int" where
  "addMilliseconds date amount = date + amount"

definition differenceInMilliseconds :: "int \<Rightarrow> int \<Rightarrow> int" where
  "differenceInMilliseconds later earlier = later - earlier"

datatype TimerStatus = Scheduled | Running | Paused | Completed | Cancelled

datatype Category = Focus | Break | Custom

record Repeat =
  intervalMs :: int
  occurrences :: "int option"

record Timer =
  idT :: string
  label :: string
  durationMs :: int
  remainingMs :: int
  status :: TimerStatus
  startedAt :: "iso option"
  endsAt :: "iso option"
  repeat :: "Repeat option"
  category :: "Category option"

text \<open>
  Every \<open>throw new Error(...)\<close> of the store, of the tool facade and of the parser of
  durations is a value of \<open>error\<close>, named after the kind of failure. A persistence
  failure carries the text of the rejected save, so that two failures can be told apart.
  The last three are the errors of \<open>parseDurationSeconds\<close>: the duration is empty, it
  is not greater than zero seconds, or the input (which the message quotes) could not be
  parsed.
\<close>

datatype error =
    CapacityExceeded
  | NotFound
  | InvalidTransition
  | ValidationError
  | PersistenceFailure string
  | DurationEmpty
  | DurationNotPositive
  | DurationUnparsed string

section \<open>The timer store (state/timerStore.ts)\<close>

subsection \<open>The state\<close>

text \<open>
  \<open>timers\<close> is the \<open>Map<string, Timer>\<close> of the class, as the list of its entries in
  insertion order: \<open>Map.set\<close> on a key that is present replaces the value in place, on a
  new key it appends.

  The persistence fields: every call of \<open>onChange\<close> returns a promise. The promises
  are numbered in call order; \<open>saveCount\<close> is how many were made, and \<open>settled k\<close> is
  the outcome of number \<open>k\<close> once the environment has settled it (\<open>None\<close> while it is in
  flight). \<open>pendingPersist\<close> is \<open>None\<close> for the \<open>Promise.resolve()\<close> the field starts
  with, and \<open>Some k\<close> for the promise derived from save number \<open>k\<close>.
\<close>

datatype SaveOutcome = Saved | SaveFailed string

record TimerStore =
  timers :: "(string \<times> Timer) list"
  maxConcurrent :: int
  onChange :: bool
  pendingPersist :: "nat option"
  lastPersistError :: "error option"
  saveCount :: nat
  settled :: "nat \<Rightarrow> SaveOutcome option"

record TimerStoreOptions =
  opt_maxConcurrent :: "int option"
  opt_initialTimers :: "Timer list option"
  opt_onChange :: bool

definition DEFAULT_MAX_CONCURRENT :: int where
  "DEFAULT_MAX_CONCURRENT = 5"

definition computeRemaining :: "Timer \<Rightarrow> int \<Rightarrow> int" where
  "computeRemaining timer now =
     (case endsAt timer of
        None \<Rightarrow> remainingMs timer
      | Some e \<Rightarrow> max (differenceInMilliseconds (newDate e) now) 0)"

definition normalizeTimer :: "Timer \<Rightarrow> int \<Rightarrow> Timer" where
  "normalizeTimer timer now =
     (if status timer = Running \<and> endsAt timer \<noteq> None then
        (let remaining = computeRemaining timer now in
         if remaining \<le> 0
         then timer\<lparr>status := Completed, remainingMs := 0, endsAt := Some (formatISO now)\<rparr>
         else timer\<lparr>remainingMs := remaining, status := Running\<rparr>)
      else if status timer = Paused then timer\<lparr>endsAt := None\<rparr>
      else timer)"

text \<open>The constructor; \<open>now\<close> is its one reading of the clock.\<close>

definition TimerStore_new :: "TimerStoreOptions \<Rightarrow> int \<Rightarrow> TimerStore" where
  "TimerStore_new options now =
     \<lparr>timers =
        (case opt_initialTimers options of
           None \<Rightarrow> []
         | Some initial \<Rightarrow>
             foldl (\<lambda>m timer. let normalized = normalizeTimer timer now
                               in AList.update (idT normalized) normalized m) [] initial),
      maxConcurrent =
        (case opt_maxConcurrent options of None \<Rightarrow> DEFAULT_MAX_CONCURRENT | Some n \<Rightarrow> n),
      onChange = opt_onChange options,
      pendingPersist = None,
      lastPersistError = None,
      saveCount = 0,
      settled = (\<lambda>k. None)\<rparr>"

subsection \<open>Reading the store\<close>

text \<open>
  \<open>getAll\<close> sorts the values by \<open>startedAt ?? ""\<close>. The empty text collates first, and
  two texts printed by \<open>formatISO\<close> collate in the order of their seconds. The sort of
  arrays is stable.
\<close>

definition startedKey :: "Timer \<Rightarrow> int option" where
  "startedKey timer = (case startedAt timer of None \<Rightarrow> None | Some (ISO n) \<Rightarrow> Some n)"

definition getAll :: "TimerStore \<Rightarrow> Timer list" where
  "getAll s = sort_key startedKey (map snd (timers s))"

definition isActive :: "Timer \<Rightarrow> bool" where
  "isActive timer = (status timer = Running \<or> status timer = Paused \<or> status timer = Scheduled)"

definition getActive :: "TimerStore \<Rightarrow> Timer list" where
  "getActive s = filter isActive (getAll s)"

definition findById :: "TimerStore \<Rightarrow> string \<Rightarrow> Timer option" where
  "findById s ident = map_of (timers s) ident"

definition requireTimer :: "TimerStore \<Rightarrow> string \<Rightarrow> error + Timer" where
  "requireTimer s ident =
     (case map_of (timers s) ident of None \<Rightarrow> Inl NotFound | Some timer \<Rightarrow> Inr timer)"

subsection \<open>Persistence\<close>

text \<open>
  \<open>emitChange\<close> calls \<open>onChange\<close> with the snapshot, which starts save number
  \<open>saveCount\<close>, clears \<open>lastPersistError\<close> and makes \<open>pendingPersist\<close> the promise of
  that save. \<open>onChange\<close> is an asynchronous function (\<open>TimerFileStorage.save\<close>), which
  reports a failure by rejecting its promise.
\<close>

definition emitChange :: "TimerStore \<Rightarrow> TimerStore" where
  "emitChange s =
     (if \<not> onChange s then s
      else s\<lparr>lastPersistError := None,
             pendingPersist := Some (saveCount s),
             saveCount := Suc (saveCount s)\<rparr>)"

text \<open>
  The environment settles save number \<open>k\<close>. When the save is rejected, the handler that
  \<open>emitChange\<close> attached with \<open>result.catch\<close> runs and stores the error. A save that is
  not in flight cannot be settled.
\<close>

definition settle :: "TimerStore \<Rightarrow> nat \<Rightarrow> SaveOutcome \<Rightarrow> TimerStore" where
  "settle s k outcome =
     (if k < saveCount s \<and> settled s k = None then
        (case outcome of
           Saved \<Rightarrow> s\<lparr>settled := (settled s)(k \<mapsto> Saved)\<rparr>
         | SaveFailed msg \<Rightarrow>
             s\<lparr>settled := (settled s)(k \<mapsto> SaveFailed msg),
               lastPersistError := Some (PersistenceFailure msg)\<rparr>)
      else s)"

text \<open>The state of the promise \<open>pendingPersist\<close>: \<open>None\<close> while it is not settled.\<close>

definition pendingState :: "TimerStore \<Rightarrow> SaveOutcome option" where
  "pendingState s = (case pendingPersist s of None \<Rightarrow> Some Saved | Some k \<Rightarrow> settled s k)"

text \<open>
  What \<open>waitForPersistence\<close> does once \<open>await this.pendingPersist\<close> has come back with
  \<open>outcome\<close>: the catch block, then the delivery of the stored error.
\<close>

definition afterAwait :: "TimerStore \<Rightarrow> SaveOutcome \<Rightarrow> TimerStore \<times> (error + unit)" where
  "afterAwait s outcome =
     (let s1 = (case outcome of
                  Saved \<Rightarrow> s
                | SaveFailed msg \<Rightarrow>
                    (if lastPersistError s = None
                     then s\<lparr>lastPersistError := Some (PersistenceFailure msg)\<rparr>
                     else s))
      in case lastPersistError s1 of
           Some err \<Rightarrow> (s1\<lparr>lastPersistError := None\<rparr>, Inl err)
         | None \<Rightarrow> (s1, Inr ()))"

text \<open>\<open>None\<close>: the caller stays suspended, since the pending save is still in flight.\<close>

definition waitForPersistence :: "TimerStore \<Rightarrow> (TimerStore \<times> (error + unit)) option" where
  "waitForPersistence s = map_option (afterAwait s) (pendingState s)"

subsection \<open>Printing numbers\<close>

text \<open>
  A template literal prints a whole number in decimal, with a leading minus sign when it
  is negative.
\<close>

definition digits10 :: string where
  "digits10 = ''0123456789''"

fun showNat :: "nat \<Rightarrow> string" where
  "showNat n =
     (if n < 10 then [digits10 ! n] else showNat (n div 10) @ [digits10 ! (n mod 10)])"

declare showNat.simps [simp del]

definition showInt :: "int \<Rightarrow> string" where
  "showInt i = (if i < 0 then ''-'' @ showNat (nat (- i)) else showNat (nat i))"

text \<open>\<open>Math.round\<close> and \<open>Math.ceil\<close> of \<open>ms / 60000\<close> for a whole number \<open>ms\<close>.\<close>

definition roundMinutes :: "int \<Rightarrow> int" where
  "roundMinutes ms = (ms + 30000) div 60000"

definition ceilMinutes :: "int \<Rightarrow> int" where
  "ceilMinutes ms = - ((- ms) div 60000)"

definition describeDelta :: "int \<Rightarrow> string" where
  "describeDelta extraMs =
     (let a = \<bar>extraMs\<bar>;
          minutes = a div 60000;
          seconds = (a mod 60000) div 1000
      in if minutes > 0 \<and> seconds > 0 then showInt minutes @ ''m '' @ showInt seconds @ ''s''
         else if minutes > 0
         then showInt minutes @ '' minute'' @ (if minutes = 1 then [] else ''s'')
         else showInt seconds @ '' second'' @ (if seconds = 1 then [] else ''s''))"

subsection \<open>Default labels\<close>

definition timerLabel :: "nat \<Rightarrow> string" where
  "timerLabel counter = ''Timer '' @ showNat counter"

definition digitVal :: "char \<Rightarrow> nat" where
  "digitVal c = of_char c - 48"

definition readNat :: "string \<Rightarrow> nat" where
  "readNat cs = foldl (\<lambda>a c. 10 * a + digitVal c) 0 cs"

lemma digitVal_digits10: "d < 10 \<Longrightarrow> digitVal (digits10 ! d) = d"
proof -
  assume "d < 10"
  then have "d \<in> {0, 1, 2, 3, 4, 5, 6, 7, 8, 9}" by auto
  then show ?thesis by (auto simp: digitVal_def digits10_def)
qed

lemma readNat_showNat: "readNat (showNat n) = n"
proof (induction n rule: showNat.induct)
  case (1 n)
  show ?case
  proof (cases "n < 10")
    case True
    then show ?thesis
      by (simp add: showNat.simps [of n] readNat_def digitVal_digits10)
  next
    case False
    have "n mod 10 < 10" by simp
    with False "1.IH" show ?thesis
      by (simp add: showNat.simps [of n] readNat_def digitVal_digits10)
  qed
qed

lemma inj_timerLabel: "inj timerLabel"
proof (rule injI)
  fix a b
  assume "timerLabel a = timerLabel b"
  then have "showNat a = showNat b" by (simp add: timerLabel_def)
  then have "readNat (showNat a) = readNat (showNat b)" by simp
  then show "a = b" by (simp add: readNat_showNat)
qed

lemma finite_taken_labels: "finite {k. c \<le> k \<and> timerLabel k \<in> set occupied}"
proof -
  have "finite (timerLabel -` set occupied)"
    by (rule finite_vimageI [OF _ inj_timerLabel]) simp
  moreover have "{k. c \<le> k \<and> timerLabel k \<in> set occupied} \<subseteq> timerLabel -` set occupied"
    by auto
  ultimately show ?thesis by (rule rev_finite_subset)
qed

text \<open>
  The loop of \<open>suggestLabel\<close>: count up from \<open>counter\<close> until the label is free. It
  ends because only finitely many labels are taken.
\<close>

function suggestLoop :: "string list \<Rightarrow> nat \<Rightarrow> string" where
  "suggestLoop occupied counter =
     (if timerLabel counter \<in> set occupied then suggestLoop occupied (counter + 1)
      else timerLabel counter)"
  by pat_completeness auto
termination
proof (relation "measure (\<lambda>(occupied, c). card {k. c \<le> k \<and> timerLabel k \<in> set occupied})")
  show "wf (measure (\<lambda>(occupied, c). card {k. c \<le> k \<and> timerLabel k \<in> set occupied}))"
    by simp
next
  fix occupied :: "string list" and counter :: nat
  assume taken: "timerLabel counter \<in> set occupied"
  have "counter \<in> {k. counter \<le> k \<and> timerLabel k \<in> set occupied}"
    using taken by simp
  moreover have "counter \<notin> {k. counter + 1 \<le> k \<and> timerLabel k \<in> set occupied}"
    by simp
  moreover have "{k. counter + 1 \<le> k \<and> timerLabel k \<in> set occupied}
          \<subseteq> {k. counter \<le> k \<and> timerLabel k \<in> set occupied}"
    by auto
  ultimately have "{k. counter + 1 \<le> k \<and> timerLabel k \<in> set occupied}
          \<subset> {k. counter \<le> k \<and> timerLabel k \<in> set occupied}"
    by blast
  then have "card {k. counter + 1 \<le> k \<and> timerLabel k \<in> set occupied}
          < card {k. counter \<le> k \<and> timerLabel k \<in> set occupied}"
    by (rule psubset_card_mono [OF finite_taken_labels])
  then show "((occupied, counter + 1), (occupied, counter))
          \<in> measure (\<lambda>(occupied, c). card {k. c \<le> k \<and> timerLabel k \<in> set occupied})"
    by simp
qed

declare suggestLoop.simps [simp del]

definition suggestLabel :: "TimerStore \<Rightarrow> string" where
  "suggestLabel s = suggestLoop (map (\<lambda>entry. label (snd entry)) (timers s)) 1"

subsection \<open>The operations\<close>

text \<open>
  Each operation takes what the source reads from its environment as an argument: \<open>now\<close>
  is the value of \<open>new Date()\<close>, and \<open>newId\<close> in \<open>start\<close> is the value of \<open>uuid()\<close>.
  It returns the store after the call beside the result; a call that throws leaves the
  store as it was, since every \<open>throw\<close> comes before the first write.
\<close>

text \<open>
  The records of the results and inputs of the store and of the tool facade. (They stand
  together here, before the operations: each record declaration brings a constant
  \<open>extend\<close> of its own, and the operation \<open>extend\<close> below is to keep that name.)

  \<open>Env\<close> is what one call of the facade reads from its environment: the clock at the
  tick, at the store operation and at the decoration of the results, the outcomes of the
  saves it waits for, and the value of \<open>uuid()\<close>.
\<close>

record TimerUpdateResult =
  timer :: Timer
  message :: string
  completed :: "Timer list option"

record StartInput =
  in_label :: "string option"
  in_durationMs :: int
  in_category :: "Category option"
  in_repeat :: "Repeat option"

record DurationInput =
  minutes :: "int option"
  seconds :: "int option"






definition start ::
  "TimerStore \<Rightarrow> int \<Rightarrow> string \<Rightarrow> StartInput \<Rightarrow> error + (TimerStore \<times> TimerUpdateResult)" where
  "start s now newId input =
     (if int (length (getActive s)) \<ge> maxConcurrent s then Inl CapacityExceeded
      else
        (let ends = addMilliseconds now (in_durationMs input);
             new = \<lparr>idT = newId,
                    label = (case in_label input of Some l \<Rightarrow> l | None \<Rightarrow> suggestLabel s),
                    durationMs = in_durationMs input,
                    remainingMs = in_durationMs input,
                    status = Running,
                    startedAt = Some (formatISO now),
                    endsAt = Some (formatISO ends),
                    repeat = in_repeat input,
                    category = Some (case in_category input of Some c \<Rightarrow> c | None \<Rightarrow> Custom)\<rparr>
         in Inr (emitChange (s\<lparr>timers := AList.update newId new (timers s)\<rparr>),
                 \<lparr>timer = new,
                  message = ''Started '' @ label new @ '' for ''
                    @ showInt (roundMinutes (in_durationMs input)) @ '' minutes.'',
                  completed = None\<rparr>)))"

definition pause ::
  "TimerStore \<Rightarrow> int \<Rightarrow> string \<Rightarrow> error + (TimerStore \<times> TimerUpdateResult)" where
  "pause s now ident =
     (case requireTimer s ident of
        Inl err \<Rightarrow> Inl err
      | Inr old \<Rightarrow>
          if status old \<noteq> Running then Inl InvalidTransition
          else
            (let remaining = computeRemaining old now;
                 updated = old\<lparr>status := Paused, remainingMs := remaining, endsAt := None\<rparr>
             in Inr (emitChange (s\<lparr>timers := AList.update ident updated (timers s)\<rparr>),
                     \<lparr>timer = updated,
                      message = label old @ '' paused with ''
                        @ showInt (ceilMinutes remaining) @ '' minutes left.'',
                      completed = None\<rparr>)))"

definition resume ::
  "TimerStore \<Rightarrow> int \<Rightarrow> string \<Rightarrow> error + (TimerStore \<times> TimerUpdateResult)" where
  "resume s now ident =
     (case requireTimer s ident of
        Inl err \<Rightarrow> Inl err
      | Inr old \<Rightarrow>
          if status old \<noteq> Paused then Inl InvalidTransition
          else
            (let ends = addMilliseconds now (remainingMs old);
                 updated = old\<lparr>status := Running,
                              startedAt := (case startedAt old of
                                              Some t \<Rightarrow> Some t
                                            | None \<Rightarrow> Some (formatISO now)),
                              endsAt := Some (formatISO ends)\<rparr>
             in Inr (emitChange (s\<lparr>timers := AList.update ident updated (timers s)\<rparr>),
                     \<lparr>timer = updated,
                      message = label old @ '' resumed. ''
                        @ showInt (ceilMinutes (remainingMs old)) @ '' minutes remaining.'',
                      completed = None\<rparr>)))"

definition cancel ::
  "TimerStore \<Rightarrow> string \<Rightarrow> error + (TimerStore \<times> TimerUpdateResult)" where
  "cancel s ident =
     (case requireTimer s ident of
        Inl err \<Rightarrow> Inl err
      | Inr old \<Rightarrow>
          (let updated = old\<lparr>status := Cancelled, remainingMs := 0, endsAt := None\<rparr>
           in Inr (emitChange (s\<lparr>timers := AList.update ident updated (timers s)\<rparr>),
                   \<lparr>timer = updated,
                    message = label old @ '' cancelled.'',
                    completed = None\<rparr>)))"

text \<open>
  \<open>completeExpiringTimers\<close>: the test of the loop, the record it writes, and the loop
  over the values of the map. The loop writes with \<open>timers.set(timer.id, finished)\<close>
  while it iterates; it is modelled over the values the map holds when the loop starts.
  Where every entry is stored under its own \<open>id\<close> (\<open>keyed\<close> below, which every store
  of this class satisfies), the write replaces the entry being visited and the iteration
  sees exactly these values.
\<close>

definition expired :: "int \<Rightarrow> Timer \<Rightarrow> bool" where
  "expired now t =
     (status t = Running \<and> (case endsAt t of None \<Rightarrow> False | Some e \<Rightarrow> newDate e \<le> now))"

definition finish :: "int \<Rightarrow> Timer \<Rightarrow> Timer" where
  "finish now t = t\<lparr>status := Completed, remainingMs := 0, endsAt := Some (formatISO now)\<rparr>"

fun completeLoop ::
  "int \<Rightarrow> Timer list \<Rightarrow> (string \<times> Timer) list \<Rightarrow> Timer list
     \<Rightarrow> (string \<times> Timer) list \<times> Timer list" where
  "completeLoop now [] m done = (m, done)"
| "completeLoop now (t # rest) m done =
     (if expired now t
      then completeLoop now rest (AList.update (idT t) (finish now t) m) (done @ [finish now t])
      else completeLoop now rest m done)"

definition completeExpiringTimers :: "TimerStore \<Rightarrow> int \<Rightarrow> TimerStore \<times> Timer list" where
  "completeExpiringTimers s now =
     (case completeLoop now (map snd (timers s)) (timers s) [] of
        (m, done) \<Rightarrow>
          (if length done > 0 then emitChange (s\<lparr>timers := m\<rparr>) else s\<lparr>timers := m\<rparr>, done))"

definition extend ::
  "TimerStore \<Rightarrow> int \<Rightarrow> string \<Rightarrow> int \<Rightarrow> error + (TimerStore \<times> TimerUpdateResult)" where
  "extend s now ident extraMs =
     (case requireTimer s ident of
        Inl err \<Rightarrow> Inl err
      | Inr old \<Rightarrow>
          if status old \<noteq> Running \<and> status old \<noteq> Paused then Inl InvalidTransition
          else
            (let remaining = (if status old = Running then computeRemaining old now
                              else remainingMs old);
                 newRemaining = max (remaining + extraMs) 0;
                 deltaLabel = describeDelta extraMs;
                 updated =
                   (if newRemaining = 0
                    then old\<lparr>status := Completed, remainingMs := 0,
                             endsAt := Some (formatISO now)\<rparr>
                    else if status old = Running
                    then old\<lparr>remainingMs := newRemaining,
                             endsAt := Some (formatISO (addMilliseconds now newRemaining))\<rparr>
                    else old\<lparr>remainingMs := newRemaining\<rparr>);
                 msg =
                   (if newRemaining = 0 then label old @ '' finished after the adjustment.''
                    else if extraMs \<ge> 0 then label old @ '' extended by '' @ deltaLabel @ ''.''
                    else label old @ '' shortened by '' @ deltaLabel @ ''.'')
             in Inr (emitChange (s\<lparr>timers := AList.update ident updated (timers s)\<rparr>),
                     \<lparr>timer = updated, message = msg, completed = None\<rparr>)))"

subsection \<open>Sequences of calls\<close>

text \<open>
  A client of the store makes calls one after the other. \<open>exec\<close> runs one call and keeps
  the store it leaves; \<open>run\<close> runs a sequence of calls from a store. The environment's
  settling of a save is one of the steps, and so is a restart of the process, which
  builds a new store from the snapshot \<open>getAll\<close> that the last save wrote (index.ts
  loads it and hands it to the constructor as \<open>initialTimers\<close>).
\<close>

datatype Op =
    OpStart int string StartInput
  | OpPause int string
  | OpResume int string
  | OpCancel string
  | OpExtend int string int
  | OpComplete int
  | OpSettle nat SaveOutcome
  | OpWait
  | OpRestart int

definition storeAfter :: "TimerStore \<Rightarrow> error + (TimerStore \<times> 'a) \<Rightarrow> TimerStore" where
  "storeAfter s r = (case r of Inl err \<Rightarrow> s | Inr (s', res) \<Rightarrow> s')"

fun exec :: "TimerStore \<Rightarrow> Op \<Rightarrow> TimerStore" where
  "exec s (OpStart now newId input) = storeAfter s (start s now newId input)"
| "exec s (OpPause now ident) = storeAfter s (pause s now ident)"
| "exec s (OpResume now ident) = storeAfter s (resume s now ident)"
| "exec s (OpCancel ident) = storeAfter s (cancel s ident)"
| "exec s (OpExtend now ident extraMs) = storeAfter s (extend s now ident extraMs)"
| "exec s (OpComplete now) = fst (completeExpiringTimers s now)"
| "exec s (OpSettle k outcome) = settle s k outcome"
| "exec s OpWait = (case waitForPersistence s of None \<Rightarrow> s | Some (s', res) \<Rightarrow> s')"
| "exec s (OpRestart now) =
     TimerStore_new \<lparr>opt_maxConcurrent = Some (maxConcurrent s),
                      opt_initialTimers = Some (getAll s),
                      opt_onChange = onChange s\<rparr> now"

definition run :: "TimerStore \<Rightarrow> Op list \<Rightarrow> TimerStore" where
  "run s ops = foldl exec s ops"

text \<open>A store made with no initial timers.\<close>

definition emptyStore :: "int option \<Rightarrow> bool \<Rightarrow> TimerStore" where
  "emptyStore mc oc =
     TimerStore_new \<lparr>opt_maxConcurrent = mc, opt_initialTimers = None, opt_onChange = oc\<rparr> 0"

text \<open>Every entry of the map is stored under the \<open>id\<close> of its timer, and no key twice.\<close>

definition keyed :: "(string \<times> Timer) list \<Rightarrow> bool" where
  "keyed m = (distinct (map fst m) \<and> list_all (\<lambda>entry. idT (snd entry) = fst entry) m)"

section \<open>The tool facade (tools/timerTool.ts)\<close>

subsection \<open>The input schemas\<close>







subsection \<open>Decorated views\<close>

definition decorateTimer :: "int \<Rightarrow> Timer \<Rightarrow> Timer" where
  "decorateTimer now t =
     (case endsAt t of
        None \<Rightarrow> t
      | Some e \<Rightarrow>
          if status t \<noteq> Running then t
          else t\<lparr>remainingMs := max (differenceInMilliseconds (newDate e) now) 0\<rparr>)"



subsection \<open>The calls\<close>











section \<open>Parsing a duration (server.ts)\<close>

subsection \<open>Characters\<close>

text \<open>
  A JavaScript string is a sequence of code units; the model has the code units below 256
  as \<open>char\<close>. The classes are those of the source's regular expressions, which have no
  \<open>u\<close> or \<open>i\<close> flag: \<open>\d\<close> is an ASCII digit, \<open>\w\<close> an ASCII letter, digit or
  underscore, and \<open>\s\<close> (also what \<open>trim\<close> removes) is tab, line feed, vertical tab, form
  feed, carriage return, space and the no-break space.
\<close>

definition isDigit :: "char \<Rightarrow> bool" where
  "isDigit c = (48 \<le> (of_char c :: nat) \<and> (of_char c :: nat) \<le> 57)"

definition isWord :: "char \<Rightarrow> bool" where
  "isWord c =
     (let n = (of_char c :: nat)
      in (48 \<le> n \<and> n \<le> 57) \<or> (65 \<le> n \<and> n \<le> 90) \<or> n = 95 \<or> (97 \<le> n \<and> n \<le> 122))"

definition isSpace :: "char \<Rightarrow> bool" where
  "isSpace c =
     (let n = (of_char c :: nat) in (9 \<le> n \<and> n \<le> 13) \<or> n = 32 \<or> n = 160)"







subsection \<open>Numbers\<close>



subsection \<open>The pattern \<open>mm:ss\<close>\<close>



subsection \<open>Unit phrases\<close>















subsection \<open>\<open>Number\<close> of a text\<close>









subsection \<open>\<open>parseDurationSeconds\<close>\<close>


section \<open>Properties of the store\<close>

subsection \<open>How a call changes the timers\<close>

text \<open>
  The lemmas of this part describe the timers after a call: every timer the store holds
  after a call was there before, or was made by \<open>start\<close> (\<open>fresh\<close>), or comes from
  one timer that was there by one of the transitions of \<open>evolves\<close>.
\<close>

lemma values_update:
  "t \<in> snd ` set (AList.update k v m) \<Longrightarrow> t = v \<or> t \<in> snd ` set m"
  by (induction m) (auto split: if_splits)

lemma map_of_values: "map_of m k = Some t \<Longrightarrow> t \<in> snd ` set m"
proof -
  assume "map_of m k = Some t"
  then have "(k, t) \<in> set m" by (rule map_of_SomeD)
  then have "snd (k, t) \<in> snd ` set m" by (rule imageI)
  then show ?thesis by simp
qed

lemma timers_emitChange [simp]: "timers (emitChange s) = timers s"
  by (simp add: emitChange_def)

lemma completeLoop_values:
  "t \<in> snd ` set (fst (completeLoop now ts m done)) \<Longrightarrow>
     t \<in> snd ` set m \<or> (\<exists>u \<in> set ts. expired now u \<and> t = finish now u)"
proof (induction ts arbitrary: m "done")
  case Nil
  then show ?case by simp
next
  case (Cons a ts)
  show ?case
  proof (cases "expired now a")
    case True
    with Cons.prems have "t \<in> snd ` set (fst (completeLoop now ts
        (AList.update (idT a) (finish now a) m) (done @ [finish now a])))"
      by simp
    from Cons.IH [OF this] have
      "t \<in> snd ` set (AList.update (idT a) (finish now a) m)
         \<or> (\<exists>u \<in> set ts. expired now u \<and> t = finish now u)" .
    then show ?thesis
    proof
      assume "t \<in> snd ` set (AList.update (idT a) (finish now a) m)"
      from values_update [OF this] True show ?thesis by auto
    next
      assume "\<exists>u \<in> set ts. expired now u \<and> t = finish now u"
      then show ?thesis by auto
    qed
  next
    case False
    with Cons.prems have "t \<in> snd ` set (fst (completeLoop now ts m done))" by simp
    from Cons.IH [OF this] show ?thesis by auto
  qed
qed

inductive evolves :: "Timer \<Rightarrow> Timer \<Rightarrow> bool" where
  ev_pause: "status u = Running \<Longrightarrow>
     evolves u (u\<lparr>status := Paused, remainingMs := computeRemaining u now, endsAt := None\<rparr>)"
| ev_resume: "status u = Paused \<Longrightarrow>
     evolves u (u\<lparr>status := Running,
                  startedAt := (case startedAt u of Some t \<Rightarrow> Some t | None \<Rightarrow> Some (formatISO now)),
                  endsAt := Some (formatISO (addMilliseconds now (remainingMs u)))\<rparr>)"
| ev_cancel: "evolves u (u\<lparr>status := Cancelled, remainingMs := 0, endsAt := None\<rparr>)"
| ev_finish: "evolves u (finish now u)"
| ev_extend_running: "status u = Running \<Longrightarrow> 0 < n \<Longrightarrow>
     evolves u (u\<lparr>remainingMs := n, endsAt := Some (formatISO (addMilliseconds now n))\<rparr>)"
| ev_extend_paused: "status u = Paused \<Longrightarrow> 0 < n \<Longrightarrow> evolves u (u\<lparr>remainingMs := n\<rparr>)"
| ev_normalize: "evolves u (normalizeTimer u now)"

definition fresh :: "Timer \<Rightarrow> bool" where
  "fresh t = (status t = Running \<and> remainingMs t = durationMs t \<and> startedAt t \<noteq> None
      \<and> endsAt t \<noteq> None)"

lemma start_Inr:
  "start s now newId input = Inr (s', r) \<Longrightarrow>
     int (length (getActive s)) < maxConcurrent s \<and> fresh (timer r) \<and> idT (timer r) = newId
     \<and> timers s' = AList.update newId (timer r) (timers s)"
  by (auto simp: start_def Let_def fresh_def split: if_splits)

lemma pause_Inr:
  "pause s now ident = Inr (s', r) \<Longrightarrow>
     \<exists>old. map_of (timers s) ident = Some old \<and> status old = Running
       \<and> timer r = old\<lparr>status := Paused, remainingMs := computeRemaining old now, endsAt := None\<rparr>
       \<and> timers s' = AList.update ident (timer r) (timers s)"
  by (auto simp: pause_def requireTimer_def Let_def split: option.splits if_splits)

lemma resume_Inr:
  "resume s now ident = Inr (s', r) \<Longrightarrow>
     \<exists>old. map_of (timers s) ident = Some old \<and> status old = Paused
       \<and> timer r = old\<lparr>status := Running,
            startedAt := (case startedAt old of Some t \<Rightarrow> Some t | None \<Rightarrow> Some (formatISO now)),
            endsAt := Some (formatISO (addMilliseconds now (remainingMs old)))\<rparr>
       \<and> timers s' = AList.update ident (timer r) (timers s)"
  by (auto simp: resume_def requireTimer_def Let_def split: option.splits if_splits)

lemma cancel_Inr:
  "cancel s ident = Inr (s', r) \<Longrightarrow>
     \<exists>old. map_of (timers s) ident = Some old
       \<and> timer r = old\<lparr>status := Cancelled, remainingMs := 0, endsAt := None\<rparr>
       \<and> timers s' = AList.update ident (timer r) (timers s)"
  by (auto simp: cancel_def requireTimer_def Let_def split: option.splits if_splits)

definition extended :: "Timer \<Rightarrow> int \<Rightarrow> int \<Rightarrow> Timer" where
  "extended old now extraMs =
     (let remaining = (if status old = Running then computeRemaining old now else remainingMs old);
          newRemaining = max (remaining + extraMs) 0
      in if newRemaining = 0 then finish now old
         else if status old = Running
         then old\<lparr>remainingMs := newRemaining,
                  endsAt := Some (formatISO (addMilliseconds now newRemaining))\<rparr>
         else old\<lparr>remainingMs := newRemaining\<rparr>)"

lemma extend_Inr:
  "extend s now ident extraMs = Inr (s', r) \<Longrightarrow>
     \<exists>old. map_of (timers s) ident = Some old \<and> (status old = Running \<or> status old = Paused)
       \<and> timer r = extended old now extraMs
       \<and> timers s' = AList.update ident (timer r) (timers s)"
proof -
  assume a: "extend s now ident extraMs = Inr (s', r)"
  then obtain old where old: "map_of (timers s) ident = Some old"
    by (cases "map_of (timers s) ident") (simp_all add: extend_def requireTimer_def)
  from a old have st: "status old = Running \<or> status old = Paused"
    by (cases "status old = Running \<or> status old = Paused")
       (simp_all add: extend_def requireTimer_def)
  from old st have "\<exists>m. extend s now ident extraMs =
      Inr (emitChange (s\<lparr>timers := AList.update ident (extended old now extraMs) (timers s)\<rparr>),
           \<lparr>timer = extended old now extraMs, message = m, completed = None\<rparr>)"
    by (simp add: extend_def requireTimer_def extended_def finish_def Let_def)
  with a obtain m where
    "s' = emitChange (s\<lparr>timers := AList.update ident (extended old now extraMs) (timers s)\<rparr>)"
    "r = \<lparr>timer = extended old now extraMs, message = m, completed = None\<rparr>"
    by auto
  then have "timer r = extended old now extraMs"
    and "timers s' = AList.update ident (timer r) (timers s)"
    by simp_all
  with old st show ?thesis by blast
qed

lemma extended_evolves:
  "status old = Running \<or> status old = Paused \<Longrightarrow> evolves old (extended old now extraMs)"
proof -
  assume st: "status old = Running \<or> status old = Paused"
  define n where "n = max ((if status old = Running then computeRemaining old now else remainingMs old) + extraMs) 0"
  have n0: "0 \<le> n" by (simp add: n_def)
  have e: "extended old now extraMs =
     (if n = 0 then finish now old
      else if status old = Running
      then old\<lparr>remainingMs := n, endsAt := Some (formatISO (addMilliseconds now n))\<rparr>
      else old\<lparr>remainingMs := n\<rparr>)"
    by (simp add: extended_def Let_def n_def)
  show ?thesis
  proof (cases "n = 0")
    case True
    then show ?thesis unfolding e by (simp add: ev_finish)
  next
    case False
    with n0 have pos: "0 < n" by simp
    show ?thesis
    proof (cases "status old = Running")
      case True
      with False show ?thesis unfolding e using ev_extend_running [OF True pos] by simp
    next
      case F2: False
      with st have "status old = Paused" by simp
      with False F2 show ?thesis unfolding e using ev_extend_paused [OF _ pos, of old] by simp
    qed
  qed
qed

lemma complete_values:
  "t \<in> snd ` set (timers (fst (completeExpiringTimers s now))) \<Longrightarrow>
     t \<in> snd ` set (timers s) \<or> (\<exists>u \<in> snd ` set (timers s). evolves u t)"
proof -
  assume a: "t \<in> snd ` set (timers (fst (completeExpiringTimers s now)))"
  have "timers (fst (completeExpiringTimers s now))
      = fst (completeLoop now (map snd (timers s)) (timers s) [])"
    by (simp add: completeExpiringTimers_def split: prod.splits)
  with a have "t \<in> snd ` set (fst (completeLoop now (map snd (timers s)) (timers s) []))"
    by simp
  from completeLoop_values [OF this] show ?thesis
    by (auto intro: ev_finish)
qed

lemma update_evolved:
  assumes "t \<in> snd ` set (AList.update k v m)" and "map_of m k = Some old" and "evolves old v"
  shows "t \<in> snd ` set m \<or> (\<exists>u \<in> snd ` set m. evolves u t)"
proof -
  from values_update [OF assms(1)] have "t = v \<or> t \<in> snd ` set m" .
  moreover have "old \<in> snd ` set m" by (rule map_of_values [OF assms(2)])
  ultimately show ?thesis using assms(3) by blast
qed

lemma storeAfter_Inl [simp]: "storeAfter s (Inl e) = s"
  by (simp add: storeAfter_def)

lemma storeAfter_Inr [simp]: "storeAfter s (Inr (s', r)) = s'"
  by (simp add: storeAfter_def)

lemma foldl_update_values:
  "t \<in> snd ` set (foldl (\<lambda>m timer. let normalized = normalizeTimer timer now
                               in AList.update (idT normalized) normalized m) m0 initial) \<Longrightarrow>
     t \<in> snd ` set m0 \<or> (\<exists>u \<in> set initial. t = normalizeTimer u now)"
proof (induction initial arbitrary: m0)
  case Nil
  then show ?case by simp
next
  case (Cons a initial)
  from Cons.prems have "t \<in> snd ` set (foldl (\<lambda>m timer. let normalized = normalizeTimer timer now
       in AList.update (idT normalized) normalized m)
       (AList.update (idT (normalizeTimer a now)) (normalizeTimer a now) m0) initial)"
    by (simp add: Let_def)
  from Cons.IH [OF this] show ?case
  proof
    assume "t \<in> snd ` set (AList.update (idT (normalizeTimer a now)) (normalizeTimer a now) m0)"
    from values_update [OF this] show ?thesis by auto
  next
    assume "\<exists>u \<in> set initial. t = normalizeTimer u now"
    then show ?thesis by auto
  qed
qed

lemma new_values:
  "t \<in> snd ` set (timers (TimerStore_new options now)) \<Longrightarrow>
     \<exists>initial u. opt_initialTimers options = Some initial \<and> u \<in> set initial
       \<and> t = normalizeTimer u now"
proof (cases "opt_initialTimers options")
  case None
  moreover assume "t \<in> snd ` set (timers (TimerStore_new options now))"
  ultimately show ?thesis by (simp add: TimerStore_new_def)
next
  case (Some initial)
  moreover assume "t \<in> snd ` set (timers (TimerStore_new options now))"
  ultimately have "t \<in> snd ` set (foldl (\<lambda>m timer. let normalized = normalizeTimer timer now
       in AList.update (idT normalized) normalized m) [] initial)"
    by (simp add: TimerStore_new_def)
  from foldl_update_values [OF this] Some show ?thesis by auto
qed

lemma set_getAll: "set (getAll s) = snd ` set (timers s)"
  by (simp add: getAll_def)

lemma exec_values:
  assumes "t \<in> snd ` set (timers (exec s op))"
  shows "t \<in> snd ` set (timers s) \<or> fresh t \<or> (\<exists>u \<in> snd ` set (timers s). evolves u t)"
proof (cases op)
  case (OpStart now newId input)
  show ?thesis
  proof (cases "start s now newId input")
    case (Inl e)
    with OpStart assms show ?thesis by simp
  next
    case (Inr p)
    obtain s' r where p: "p = (s', r)" by (cases p)
    from start_Inr [OF Inr [unfolded p]] have f: "fresh (timer r)"
      and tm: "timers s' = AList.update newId (timer r) (timers s)" by simp_all
    from assms OpStart Inr p have "t \<in> snd ` set (timers s')" by simp
    then have "t = timer r \<or> t \<in> snd ` set (timers s)"
      unfolding tm by (rule values_update)
    with f show ?thesis by blast
  qed
next
  case (OpPause now ident)
  show ?thesis
  proof (cases "pause s now ident")
    case (Inl e)
    with OpPause assms show ?thesis by simp
  next
    case (Inr p)
    obtain s' r where p: "p = (s', r)" by (cases p)
    from pause_Inr [OF Inr [unfolded p]] obtain old where
      old: "map_of (timers s) ident = Some old" "status old = Running"
      and r: "timer r = old\<lparr>status := Paused, remainingMs := computeRemaining old now, endsAt := None\<rparr>"
      and tm: "timers s' = AList.update ident (timer r) (timers s)" by blast
    have ev: "evolves old (timer r)" unfolding r by (rule ev_pause [OF old(2)])
    from assms OpPause Inr p have "t \<in> snd ` set (timers s')" by simp
    then show ?thesis unfolding tm using update_evolved [OF _ old(1) ev] by blast
  qed
next
  case (OpResume now ident)
  show ?thesis
  proof (cases "resume s now ident")
    case (Inl e)
    with OpResume assms show ?thesis by simp
  next
    case (Inr p)
    obtain s' r where p: "p = (s', r)" by (cases p)
    from resume_Inr [OF Inr [unfolded p]] obtain old where
      old: "map_of (timers s) ident = Some old" "status old = Paused"
      and r: "timer r = old\<lparr>status := Running,
            startedAt := (case startedAt old of Some t \<Rightarrow> Some t | None \<Rightarrow> Some (formatISO now)),
            endsAt := Some (formatISO (addMilliseconds now (remainingMs old)))\<rparr>"
      and tm: "timers s' = AList.update ident (timer r) (timers s)" by blast
    have ev: "evolves old (timer r)" unfolding r by (rule ev_resume [OF old(2)])
    from assms OpResume Inr p have "t \<in> snd ` set (timers s')" by simp
    then show ?thesis unfolding tm using update_evolved [OF _ old(1) ev] by blast
  qed
next
  case (OpCancel ident)
  show ?thesis
  proof (cases "cancel s ident")
    case (Inl e)
    with OpCancel assms show ?thesis by simp
  next
    case (Inr p)
    obtain s' r where p: "p = (s', r)" by (cases p)
    from cancel_Inr [OF Inr [unfolded p]] obtain old where
      old: "map_of (timers s) ident = Some old"
      and r: "timer r = old\<lparr>status := Cancelled, remainingMs := 0, endsAt := None\<rparr>"
      and tm: "timers s' = AList.update ident (timer r) (timers s)" by blast
    have ev: "evolves old (timer r)" unfolding r by (rule ev_cancel)
    from assms OpCancel Inr p have "t \<in> snd ` set (timers s')" by simp
    then show ?thesis unfolding tm using update_evolved [OF _ old(1) ev] by blast
  qed
next
  case (OpExtend now ident extraMs)
  show ?thesis
  proof (cases "extend s now ident extraMs")
    case (Inl e)
    with OpExtend assms show ?thesis by simp
  next
    case (Inr p)
    obtain s' r where p: "p = (s', r)" by (cases p)
    from extend_Inr [OF Inr [unfolded p]] obtain old where
      old: "map_of (timers s) ident = Some old" "status old = Running \<or> status old = Paused"
      and r: "timer r = extended old now extraMs"
      and tm: "timers s' = AList.update ident (timer r) (timers s)" by blast
    have ev: "evolves old (timer r)" unfolding r by (rule extended_evolves [OF old(2)])
    from assms OpExtend Inr p have "t \<in> snd ` set (timers s')" by simp
    then show ?thesis unfolding tm using update_evolved [OF _ old(1) ev] by blast
  qed
next
  case (OpComplete now)
  from assms have "t \<in> snd ` set (timers (fst (completeExpiringTimers s now)))"
    unfolding OpComplete by simp
  from complete_values [OF this] show ?thesis by blast
next
  case (OpSettle k outcome)
  have "timers (settle s k outcome) = timers s"
    by (simp add: settle_def split: SaveOutcome.splits)
  with OpSettle assms show ?thesis by simp
next
  case OpWait
  have "timers (exec s OpWait) = timers s"
    by (simp add: waitForPersistence_def afterAwait_def Let_def pendingState_def
        split: option.splits SaveOutcome.splits)
  with OpWait assms show ?thesis by simp
next
  case (OpRestart now)
  with assms have "t \<in> snd ` set (timers (TimerStore_new
      \<lparr>opt_maxConcurrent = Some (maxConcurrent s), opt_initialTimers = Some (getAll s),
       opt_onChange = onChange s\<rparr> now))" by simp
  from new_values [OF this] obtain u where "u \<in> set (getAll s)" "t = normalizeTimer u now"
    by auto
  then show ?thesis by (auto simp: set_getAll intro: ev_normalize)
qed


lemma run_invariant:
  assumes new: "\<And>t. fresh t \<Longrightarrow> P t"
    and step: "\<And>u t. evolves u t \<Longrightarrow> P u \<Longrightarrow> P t"
    and init: "\<forall>t \<in> snd ` set (timers s). P t"
  shows "\<forall>t \<in> snd ` set (timers (run s ops)). P t"
  using init
proof (induction ops arbitrary: s)
  case Nil
  then show ?case by (simp add: run_def)
next
  case (Cons op ops)
  have "\<forall>t \<in> snd ` set (timers (exec s op)). P t"
  proof
    fix t
    assume "t \<in> snd ` set (timers (exec s op))"
    from exec_values [OF this] Cons.prems new step show "P t" by blast
  qed
  from Cons.IH [OF this] show ?case by (simp add: run_def)
qed

lemma timers_emptyStore [simp]: "timers (emptyStore mc oc) = []"
  by (simp add: emptyStore_def TimerStore_new_def)

subsection \<open>Invariants of the timers\<close>

definition endsInv :: "Timer \<Rightarrow> bool" where
  "endsInv t = ((endsAt t \<noteq> None) = (status t = Running \<or> status t = Completed))"

lemma endsInv_evolves: "evolves u t \<Longrightarrow> endsInv u \<Longrightarrow> endsInv t"
  by (induction rule: evolves.induct)
     (auto simp: endsInv_def finish_def normalizeTimer_def Let_def)

lemma endsInv_fresh: "fresh t \<Longrightarrow> endsInv t"
  by (simp add: fresh_def endsInv_def)




subsection \<open>Example inputs\<close>

text \<open>A one-second timer with the label \<open>tea\<close>, as the facade would pass it to \<open>start\<close>.\<close>

definition tea :: StartInput where
  "tea = \<lparr>in_label = Some ''tea'', in_durationMs = 1000, in_category = None, in_repeat = None\<rparr>"

text \<open>The timer \<open>tea\<close> with id \<open>a\<close>, started at instant 0 and completed at instant 1000.\<close>

definition teaDone :: Timer where
  "teaDone = \<lparr>idT = ''a'', label = ''tea'', durationMs = 1000, remainingMs = 0,
     status = Completed, startedAt = Some (ISO 0), endsAt = Some (ISO 1), repeat = None,
     category = Some Custom\<rparr>"

subsection \<open>C1: when \<open>endsAt\<close> is present\<close>

text \<open>
  C1 says that a timer of the store has \<open>endsAt\<close> if and only if it is running. A
  completed timer has \<open>endsAt\<close> too: \<open>completeExpiringTimers\<close> and \<open>extend\<close> write
  \<open>endsAt: formatISO(now)\<close> into the record they complete. Here a timer is started at
  instant 0 for one second and the store is reconciled at instant 1000.
\<close>

theorem completed_timer_has_endsAt:
  "map_option status
     (findById (run (emptyStore None False) [OpStart 0 ''a'' tea, OpComplete 1000]) ''a'')
     = Some Completed
   \<and> map_option endsAt
     (findById (run (emptyStore None False) [OpStart 0 ''a'' tea, OpComplete 1000]) ''a'')
     = Some (Some (ISO 1))"
  by code_simp

text \<open>
  C1 as amended: in every store reached from an empty one by calls of \<open>start\<close>, \<open>pause\<close>,
  \<open>resume\<close>, \<open>cancel\<close>, \<open>extend\<close> and \<open>completeExpiringTimers\<close> (and by settled saves
  and restarts from the snapshot), a timer has \<open>endsAt\<close> if and only if its status is
  \<open>running\<close> or \<open>completed\<close>.
\<close>

theorem endsAt_iff_running_or_completed:
  assumes "t \<in> set (getAll (run (emptyStore mc oc) ops))"
  shows "(endsAt t \<noteq> None) = (status t = Running \<or> status t = Completed)"
proof -
  have "\<forall>t \<in> snd ` set (timers (run (emptyStore mc oc) ops)). endsInv t"
    by (rule run_invariant [where P = endsInv, OF endsInv_fresh endsInv_evolves]) simp_all
  moreover from assms have "t \<in> snd ` set (timers (run (emptyStore mc oc) ops))"
    by (simp add: set_getAll)
  ultimately have "endsInv t" by blast
  then show ?thesis by (simp add: endsInv_def)
qed

theorem endsAt_iff_running_or_completed_witness:
  "teaDone \<in> set (getAll (run (emptyStore None False) [OpStart 0 ''a'' tea, OpComplete 1000]))
   \<and> (endsAt teaDone \<noteq> None) = (status teaDone = Running \<or> status teaDone = Completed)"
proof -
  have h: "teaDone \<in> set (getAll (run (emptyStore None False)
      [OpStart 0 ''a'' tea, OpComplete 1000]))"
    by code_simp
  show ?thesis using h endsAt_iff_running_or_completed [OF h] by simp
qed

subsection \<open>C4: the sign of \<open>remainingMs\<close>\<close>





subsection \<open>Keys and ids\<close>

text \<open>
  Every store of the class is \<open>keyed\<close>: the constructor and every operation write a
  timer under its own id.
\<close>

lemma keyed_update:
  assumes "keyed m" and "idT v = k"
  shows "keyed (AList.update k v m)"
proof -
  from assms(1) have d: "distinct (map fst m)"
    and a: "list_all (\<lambda>entry. idT (snd entry) = fst entry) m"
    by (simp_all add: keyed_def)
  have "distinct (map fst (AList.update k v m))" using d by (rule distinct_update)
  moreover have "list_all (\<lambda>entry. idT (snd entry) = fst entry) (AList.update k v m)"
    using a assms(2) by (induction m) auto
  ultimately show ?thesis by (simp add: keyed_def)
qed

lemma keyed_lookup: "keyed m \<Longrightarrow> map_of m k = Some t \<Longrightarrow> idT t = k"
proof -
  assume "keyed m" and "map_of m k = Some t"
  then have "(k, t) \<in> set m" and "\<forall>entry \<in> set m. idT (snd entry) = fst entry"
    by (auto simp: keyed_def list_all_iff dest: map_of_SomeD)
  then show ?thesis by fastforce
qed

lemma update_in_place:
  "k \<notin> fst ` set pre \<Longrightarrow> AList.update k v (pre @ (k, t) # suf) = pre @ (k, v) # suf"
  by (induction pre) auto

definition completeEntry :: "int \<Rightarrow> string \<times> Timer \<Rightarrow> string \<times> Timer" where
  "completeEntry now entry =
     (fst entry, if expired now (snd entry) then finish now (snd entry) else snd entry)"

lemma completeLoop_keyed:
  assumes "distinct (map fst (pre @ suf))"
    and "list_all (\<lambda>entry. idT (snd entry) = fst entry) suf"
  shows "completeLoop now (map snd suf) (pre @ suf) done
     = (pre @ map (completeEntry now) suf,
        done @ map (finish now) (filter (expired now) (map snd suf)))"
  using assms
proof (induction suf arbitrary: pre "done")
  case Nil
  then show ?case by simp
next
  case (Cons entry suf)
  obtain k t where entry: "entry = (k, t)" by (cases entry)
  from Cons.prems(2) entry have idk: "idT t = k"
    and rest: "list_all (\<lambda>entry. idT (snd entry) = fst entry) suf"
    by simp_all
  from Cons.prems(1) entry have fresh_k: "k \<notin> fst ` set pre"
    by auto
  show ?case
  proof (cases "expired now t")
    case True
    have upd: "AList.update (idT t) (finish now t) (pre @ (k, t) # suf)
        = (pre @ [(k, finish now t)]) @ suf"
      using update_in_place [OF fresh_k, of "finish now t" t suf] idk by simp
    have d: "distinct (map fst ((pre @ [(k, finish now t)]) @ suf))"
      using Cons.prems(1) entry by simp
    have "completeLoop now (map snd (entry # suf)) (pre @ entry # suf) done
        = completeLoop now (map snd suf) ((pre @ [(k, finish now t)]) @ suf)
            (done @ [finish now t])"
      using True entry upd by simp
    also have "\<dots> = ((pre @ [(k, finish now t)]) @ map (completeEntry now) suf,
        (done @ [finish now t]) @ map (finish now) (filter (expired now) (map snd suf)))"
      by (rule Cons.IH [OF d rest])
    finally show ?thesis using True entry by (simp add: completeEntry_def)
  next
    case False
    have d: "distinct (map fst ((pre @ [(k, t)]) @ suf))"
      using Cons.prems(1) entry by simp
    have "completeLoop now (map snd (entry # suf)) (pre @ entry # suf) done
        = completeLoop now (map snd suf) ((pre @ [(k, t)]) @ suf) done"
      using False entry by simp
    also have "\<dots> = ((pre @ [(k, t)]) @ map (completeEntry now) suf,
        done @ map (finish now) (filter (expired now) (map snd suf)))"
      by (rule Cons.IH [OF d rest])
    finally show ?thesis using False entry by (simp add: completeEntry_def)
  qed
qed

lemma completeLoop_store:
  assumes "keyed m"
  shows "completeLoop now (map snd m) m []
     = (map (completeEntry now) m, map (finish now) (filter (expired now) (map snd m)))"
  using completeLoop_keyed [of "[]" m now "[]"] assms by (simp add: keyed_def)

lemma completeExpiringTimers_keyed:
  assumes "keyed (timers s)"
  shows "timers (fst (completeExpiringTimers s now)) = map (completeEntry now) (timers s)"
    and "snd (completeExpiringTimers s now)
       = map (finish now) (filter (expired now) (map snd (timers s)))"
  using completeLoop_store [OF assms, of now]
  by (simp_all add: completeExpiringTimers_def)

lemma keyed_completed: "keyed m \<Longrightarrow> keyed (map (completeEntry now) m)"
proof -
  assume k: "keyed m"
  have "map fst (map (completeEntry now) m) = map fst m"
    by (simp add: completeEntry_def comp_def)
  with k have "distinct (map fst (map (completeEntry now) m))"
    by (simp only: keyed_def)
  moreover have "list_all (\<lambda>entry. idT (snd entry) = fst entry) (map (completeEntry now) m)"
    using k by (auto simp: keyed_def list_all_iff completeEntry_def finish_def)
  ultimately show ?thesis by (simp only: keyed_def simp_thms)
qed

lemma not_expired_completed: "\<not> expired now (snd (completeEntry now entry))"
  by (simp add: completeEntry_def expired_def finish_def)

lemma completeEntry_twice: "completeEntry now (completeEntry now entry) = completeEntry now entry"
  using not_expired_completed [of now entry]
  by (simp add: completeEntry_def)

subsection \<open>C10: reconciling twice at the same instant\<close>

text \<open>
  C10: after \<open>completeExpiringTimers(now)\<close>, a second call with the same \<open>now\<close> returns
  the empty list and leaves the store as it is: no timer changes and no save is started.
  The store is any store whose map holds each timer under its own id.
\<close>

theorem completeExpiringTimers_idempotent:
  assumes "keyed (timers s)"
  shows "completeExpiringTimers (fst (completeExpiringTimers s now)) now
     = (fst (completeExpiringTimers s now), [])"
proof -
  define s1 where "s1 = fst (completeExpiringTimers s now)"
  have t1: "timers s1 = map (completeEntry now) (timers s)"
    unfolding s1_def by (rule completeExpiringTimers_keyed(1) [OF assms])
  have k1: "keyed (timers s1)" unfolding t1 by (rule keyed_completed [OF assms])
  have none: "filter (expired now) (map snd (timers s1)) = []"
    unfolding t1 by (simp add: filter_empty_conv not_expired_completed)
  have same: "map (completeEntry now) (timers s1) = timers s1"
    unfolding t1 by (simp add: completeEntry_twice)
  have "completeLoop now (map snd (timers s1)) (timers s1) [] = (timers s1, [])"
    using completeLoop_store [OF k1, of now] none same by simp
  then have "completeExpiringTimers s1 now = (s1, [])"
    by (simp add: completeExpiringTimers_def)
  then show ?thesis by (simp add: s1_def)
qed

theorem completeExpiringTimers_idempotent_witness:
  "keyed (timers (run (emptyStore None False) [OpStart 0 ''a'' tea]))
   \<and> completeExpiringTimers
       (fst (completeExpiringTimers (run (emptyStore None False) [OpStart 0 ''a'' tea]) 1000))
       1000
     = (fst (completeExpiringTimers (run (emptyStore None False) [OpStart 0 ''a'' tea]) 1000),
        [])"
proof -
  have h: "keyed (timers (run (emptyStore None False) [OpStart 0 ''a'' tea]))"
    by code_simp
  show ?thesis using h completeExpiringTimers_idempotent [OF h] by simp
qed

subsection \<open>Every store of the class is keyed\<close>

lemma keyed_foldl_normalize:
  "keyed m0 \<Longrightarrow>
     keyed (foldl (\<lambda>m timer. let normalized = normalizeTimer timer now
                               in AList.update (idT normalized) normalized m) m0 initial)"
proof (induction initial arbitrary: m0)
  case Nil
  then show ?case by simp
next
  case (Cons a initial)
  have "keyed (AList.update (idT (normalizeTimer a now)) (normalizeTimer a now) m0)"
    by (rule keyed_update [OF Cons.prems]) simp
  from Cons.IH [OF this] show ?case by (simp add: Let_def)
qed

lemma keyed_new: "keyed (timers (TimerStore_new options now))"
proof (cases "opt_initialTimers options")
  case None
  then show ?thesis by (simp add: TimerStore_new_def keyed_def)
next
  case (Some initial)
  have "keyed ([] :: (string \<times> Timer) list)" by (simp add: keyed_def)
  from keyed_foldl_normalize [OF this, of now initial] Some show ?thesis
    by (simp add: TimerStore_new_def)
qed

lemma idT_extended [simp]: "idT (extended old now extraMs) = idT old"
  by (simp add: extended_def Let_def finish_def)

lemma keyed_exec:
  assumes "keyed (timers s)"
  shows "keyed (timers (exec s op))"
proof (cases op)
  case (OpStart now newId input)
  show ?thesis
  proof (cases "start s now newId input")
    case (Inl e)
    with OpStart assms show ?thesis by simp
  next
    case (Inr p)
    obtain s' r where p: "p = (s', r)" by (cases p)
    from start_Inr [OF Inr [unfolded p]] have i: "idT (timer r) = newId"
      and tm: "timers s' = AList.update newId (timer r) (timers s)" by simp_all
    have "keyed (timers s')" unfolding tm by (rule keyed_update [OF assms i])
    with OpStart Inr p show ?thesis by simp
  qed
next
  case (OpPause now ident)
  show ?thesis
  proof (cases "pause s now ident")
    case (Inl e)
    with OpPause assms show ?thesis by simp
  next
    case (Inr p)
    obtain s' r where p: "p = (s', r)" by (cases p)
    from pause_Inr [OF Inr [unfolded p]] obtain old where
      old: "map_of (timers s) ident = Some old"
      and r: "timer r = old\<lparr>status := Paused, remainingMs := computeRemaining old now, endsAt := None\<rparr>"
      and tm: "timers s' = AList.update ident (timer r) (timers s)" by blast
    from keyed_lookup [OF assms old] r have "idT (timer r) = ident" by simp
    then have "keyed (timers s')" unfolding tm by (rule keyed_update [OF assms])
    with OpPause Inr p show ?thesis by simp
  qed
next
  case (OpResume now ident)
  show ?thesis
  proof (cases "resume s now ident")
    case (Inl e)
    with OpResume assms show ?thesis by simp
  next
    case (Inr p)
    obtain s' r where p: "p = (s', r)" by (cases p)
    from resume_Inr [OF Inr [unfolded p]] obtain old where
      old: "map_of (timers s) ident = Some old"
      and r: "timer r = old\<lparr>status := Running,
            startedAt := (case startedAt old of Some t \<Rightarrow> Some t | None \<Rightarrow> Some (formatISO now)),
            endsAt := Some (formatISO (addMilliseconds now (remainingMs old)))\<rparr>"
      and tm: "timers s' = AList.update ident (timer r) (timers s)" by blast
    from keyed_lookup [OF assms old] r have "idT (timer r) = ident" by simp
    then have "keyed (timers s')" unfolding tm by (rule keyed_update [OF assms])
    with OpResume Inr p show ?thesis by simp
  qed
next
  case (OpCancel ident)
  show ?thesis
  proof (cases "cancel s ident")
    case (Inl e)
    with OpCancel assms show ?thesis by simp
  next
    case (Inr p)
    obtain s' r where p: "p = (s', r)" by (cases p)
    from cancel_Inr [OF Inr [unfolded p]] obtain old where
      old: "map_of (timers s) ident = Some old"
      and r: "timer r = old\<lparr>status := Cancelled, remainingMs := 0, endsAt := None\<rparr>"
      and tm: "timers s' = AList.update ident (timer r) (timers s)" by blast
    from keyed_lookup [OF assms old] r have "idT (timer r) = ident" by simp
    then have "keyed (timers s')" unfolding tm by (rule keyed_update [OF assms])
    with OpCancel Inr p show ?thesis by simp
  qed
next
  case (OpExtend now ident extraMs)
  show ?thesis
  proof (cases "extend s now ident extraMs")
    case (Inl e)
    with OpExtend assms show ?thesis by simp
  next
    case (Inr p)
    obtain s' r where p: "p = (s', r)" by (cases p)
    from extend_Inr [OF Inr [unfolded p]] obtain old where
      old: "map_of (timers s) ident = Some old"
      and r: "timer r = extended old now extraMs"
      and tm: "timers s' = AList.update ident (timer r) (timers s)" by blast
    from keyed_lookup [OF assms old] r have "idT (timer r) = ident" by simp
    then have "keyed (timers s')" unfolding tm by (rule keyed_update [OF assms])
    with OpExtend Inr p show ?thesis by simp
  qed
next
  case (OpComplete now)
  then show ?thesis
    using completeExpiringTimers_keyed(1) [OF assms, of now] keyed_completed [OF assms, of now]
    by simp
next
  case (OpSettle k outcome)
  have "timers (settle s k outcome) = timers s"
    by (simp add: settle_def split: SaveOutcome.splits)
  with OpSettle assms show ?thesis by simp
next
  case OpWait
  have "timers (exec s OpWait) = timers s"
    by (simp add: waitForPersistence_def afterAwait_def Let_def pendingState_def
        split: option.splits SaveOutcome.splits)
  with OpWait assms show ?thesis by simp
next
  case (OpRestart now)
  then show ?thesis by (simp add: keyed_new)
qed

lemma keyed_run: "keyed (timers s) \<Longrightarrow> keyed (timers (run s ops))"
proof (induction ops arbitrary: s)
  case Nil
  then show ?case by (simp add: run_def)
next
  case (Cons op ops)
  from Cons.IH [OF keyed_exec [OF Cons.prems, of op]] show ?case by (simp add: run_def)
qed

subsection \<open>C3: reconciliation completes and reports every expired timer\<close>



lemma decorate_finished [simp]: "decorateTimer view (finish now t) = finish now t"
  by (simp add: decorateTimer_def finish_def)







text \<open>Two more example values: a one-minute timer, and the timer \<open>tea\<close> while it runs.\<close>

definition coffee :: StartInput where
  "coffee = \<lparr>in_label = Some ''coffee'', in_durationMs = 60000, in_category = None,
     in_repeat = None\<rparr>"

definition teaRunning :: Timer where
  "teaRunning = \<lparr>idT = ''a'', label = ''tea'', durationMs = 1000, remainingMs = 1000,
     status = Running, startedAt = Some (ISO 0), endsAt = Some (ISO 1), repeat = None,
     category = Some Custom\<rparr>"





subsection \<open>C5: an extension that uses up the remaining time\<close>

lemma findById_update [simp]:
  "findById (emitChange (s\<lparr>timers := AList.update k v (timers s)\<rparr>)) k = Some v"
  by (simp add: findById_def update_Some_unfold)



subsection \<open>C6: pause, then resume\<close>








subsection \<open>C8: the capacity check of \<open>start\<close>\<close>

lemma length_getActive:
  "length (getActive s) = length (filter isActive (map snd (timers s)))"
proof -
  have "filter isActive (sort_key startedKey (map snd (timers s)))
      = sort_key startedKey (filter isActive (map snd (timers s)))"
    by (rule filter_sort)
  then show ?thesis by (simp add: getActive_def getAll_def)
qed

text \<open>Stores with four and with five running timers, made with the default limit.\<close>

definition fourTimers :: TimerStore where
  "fourTimers = run (emptyStore None False)
     [OpStart 0 ''a'' coffee, OpStart 0 ''b'' coffee, OpStart 0 ''c'' coffee, OpStart 0 ''d'' coffee]"

definition fiveTimers :: TimerStore where
  "fiveTimers = run fourTimers [OpStart 0 ''e'' coffee]"

text \<open>
  C8. \<open>start\<close> throws, and then it throws the capacity error, if and only if the number
  of timers whose status is \<open>scheduled\<close>, \<open>running\<close> or \<open>paused\<close> is at least
  \<open>maxConcurrent\<close>; otherwise it returns a running timer, which the store then holds
  under the new id. A store made without the option has \<open>maxConcurrent = 5\<close>; with that
  limit \<open>start\<close> fails when five timers are active and succeeds when four are.
\<close>

theorem start_fails_iff_at_capacity:
  "(start s now newId input = Inl CapacityExceeded)
     = (maxConcurrent s \<le> int (length (getActive s)))
   \<and> isl (start s now newId input) = (maxConcurrent s \<le> int (length (getActive s)))
   \<and> length (getActive s)
     = length (filter (\<lambda>t. status t = Scheduled \<or> status t = Running \<or> status t = Paused)
         (map snd (timers s)))
   \<and> (maxConcurrent s \<le> int (length (getActive s))
      \<or> (\<exists>s' res. start s now newId input = Inr (s', res) \<and> status (timer res) = Running
            \<and> findById s' newId = Some (timer res)))
   \<and> maxConcurrent (TimerStore_new
        \<lparr>opt_maxConcurrent = None, opt_initialTimers = initial, opt_onChange = oc\<rparr> t0) = 5
   \<and> (maxConcurrent s = 5 \<and> length (getActive s) = 5 \<longrightarrow>
        start s now newId input = Inl CapacityExceeded)
   \<and> (maxConcurrent s = 5 \<and> length (getActive s) = 4 \<longrightarrow>
        (\<exists>s' res. start s now newId input = Inr (s', res) \<and> status (timer res) = Running))"
proof -
  have one: "(start s now newId input = Inl CapacityExceeded)
      = (maxConcurrent s \<le> int (length (getActive s)))"
    by (simp add: start_def Let_def)
  have two: "isl (start s now newId input) = (maxConcurrent s \<le> int (length (getActive s)))"
    by (simp add: start_def Let_def)
  have three: "length (getActive s)
     = length (filter (\<lambda>t. status t = Scheduled \<or> status t = Running \<or> status t = Paused)
         (map snd (timers s)))"
  proof -
    have "isActive = (\<lambda>t. status t = Scheduled \<or> status t = Running \<or> status t = Paused)"
      by (auto simp: isActive_def fun_eq_iff)
    then show ?thesis by (simp add: length_getActive)
  qed
  have four: "\<exists>s' res. start s now newId input = Inr (s', res) \<and> status (timer res) = Running
      \<and> findById s' newId = Some (timer res)"
    if "\<not> maxConcurrent s \<le> int (length (getActive s))"
    using that by (simp add: start_def Let_def)
  have five: "maxConcurrent (TimerStore_new
      \<lparr>opt_maxConcurrent = None, opt_initialTimers = initial, opt_onChange = oc\<rparr> t0) = 5"
    by (simp add: TimerStore_new_def DEFAULT_MAX_CONCURRENT_def)
  have six: "start s now newId input = Inl CapacityExceeded"
    if "maxConcurrent s = 5 \<and> length (getActive s) = 5"
    using that one by simp
  have seven: "\<exists>s' res. start s now newId input = Inr (s', res) \<and> status (timer res) = Running"
    if "maxConcurrent s = 5 \<and> length (getActive s) = 4"
    using that four by auto
  from one two three four five six seven show ?thesis by blast
qed

theorem start_fails_iff_at_capacity_witness:
  "maxConcurrent fiveTimers = 5 \<and> length (getActive fiveTimers) = 5
   \<and> start fiveTimers 0 ''f'' coffee = Inl CapacityExceeded
   \<and> maxConcurrent fourTimers = 5 \<and> length (getActive fourTimers) = 4
   \<and> (\<exists>s' res. start fourTimers 0 ''e'' coffee = Inr (s', res)
        \<and> status (timer res) = Running)"
proof -
  have a5: "maxConcurrent fiveTimers = 5 \<and> length (getActive fiveTimers) = 5"
    by code_simp
  have a4: "maxConcurrent fourTimers = 5 \<and> length (getActive fourTimers) = 4"
    by code_simp
  from start_fails_iff_at_capacity [of fiveTimers 0 "''f''" coffee] a5
  have "start fiveTimers 0 ''f'' coffee = Inl CapacityExceeded" by blast
  moreover from start_fails_iff_at_capacity [of fourTimers 0 "''e''" coffee] a4
  have "\<exists>s' res. start fourTimers 0 ''e'' coffee = Inr (s', res) \<and> status (timer res) = Running"
    by blast
  ultimately show ?thesis using a5 a4 by blast
qed

subsection \<open>C2: the remaining time that the facade reports\<close>




lemma decorateTimer_fields [simp]:
  "status (decorateTimer now u) = status u" "endsAt (decorateTimer now u) = endsAt u"
  "durationMs (decorateTimer now u) = durationMs u"
  by (simp_all add: decorateTimer_def split: option.splits)
















subsection \<open>C7: the delivery of a persistence error\<close>

lemma timers_settle [simp]: "timers (settle s k outcome) = timers s"
  by (simp add: settle_def split: SaveOutcome.splits)

text \<open>
  A save that fails changes no timer: the mutation that started it has already written
  the map. The first \<open>waitForPersistence\<close> after the failure throws the error and clears
  \<open>lastPersistError\<close>. The promise \<open>pendingPersist\<close> stays rejected, so a second
  \<open>waitForPersistence\<close> finds the rejection in its \<open>catch\<close> block, stores the error
  again and throws it again, and so does every later one until the next \<open>emitChange\<close>.
\<close>

lemma waitForPersistence_after_failure:
  assumes "pendingPersist s = Some k" and "k < saveCount s" and "settled s k = None"
  shows "\<exists>s1. waitForPersistence (settle s k (SaveFailed msg))
        = Some (s1, Inl (PersistenceFailure msg))
     \<and> timers s1 = timers s \<and> lastPersistError s1 = None
     \<and> waitForPersistence s1 = Some (s1, Inl (PersistenceFailure msg))"
  using assms
  by (simp add: waitForPersistence_def pendingState_def settle_def afterAwait_def Let_def)

text \<open>A store with \<open>onChange\<close> after one \<open>start\<close> whose save was rejected.\<close>

definition failedSave :: TimerStore where
  "failedSave = run (emptyStore None True) [OpStart 0 ''a'' tea, OpSettle 0 (SaveFailed ''disk full'')]"

text \<open>
  C7 on a concrete run: a store with \<open>onChange\<close>, one \<open>start\<close>, and the save of that
  \<open>start\<close> rejected with the text \<open>disk full\<close>. The timer is in the store and runs. The
  first wait throws the error and leaves \<open>lastPersistError\<close> empty; the second wait, with
  no mutation and no failure in between, throws the same error again.
\<close>

theorem persistence_error_thrown_again:
  "findById failedSave ''a'' = Some teaRunning
   \<and> map_option snd (waitForPersistence failedSave)
       = Some (Inl (PersistenceFailure ''disk full''))
   \<and> lastPersistError (run failedSave [OpWait]) = None
   \<and> map_option snd (waitForPersistence (run failedSave [OpWait]))
       = Some (Inl (PersistenceFailure ''disk full''))"
  by code_simp


section \<open>Properties of the parser\<close>

subsection \<open>Runs of characters\<close>





lemma digit_not_space: "isDigit c \<Longrightarrow> \<not> isSpace c"
  by (auto simp: isDigit_def isSpace_def Let_def)

lemma digit_is_word: "isDigit c \<Longrightarrow> isWord c"
  by (auto simp: isDigit_def isWord_def Let_def)





subsection \<open>The digit test of the leftover text\<close>






subsection \<open>The scan of a text\<close>







subsection \<open>Texts made of unit phrases\<close>




















subsection \<open>Texts that match \<open>mm:ss\<close>\<close>






subsection \<open>\<open>Number\<close> of a text of digits\<close>


subsection \<open>C9: what \<open>parseDurationSeconds\<close> returns\<close>














end
